theory Spec2Isabelle
  imports Main "HOL-Library.Word"
begin

section \<open>go-nbreader: a non-blocking io.Reader\<close>

text \<open>
  A shallow embedding of \<^verbatim>\<open>nbreader.go\<close>. The package wraps a blocking
  \<^verbatim>\<open>io.Reader\<close>: a goroutine (\<^verbatim>\<open>readInput\<close>) reads blocks from it and sends
  them over an unbuffered channel, and \<^verbatim>\<open>Read\<close> collects them into a
  \<^verbatim>\<open>bytes.Buffer\<close> under two timeouts.

  What the Go runtime and the standard library decide is made explicit:
  \<^item> the underlying reader is a script of the answers it gives to successive
    \<^verbatim>\<open>Read(tmp)\<close> calls; a script that ends without an error is a reader that
    blocks from then on;
  \<^item> the producer goroutine is the sequence of operations it performs on the
    channel (sends, then possibly one close), and the channel state of the
    reader is what is left of that sequence;
  \<^item> the clock and the scheduler are an oracle: every loop iteration of
    \<^verbatim>\<open>Read\<close> is given the four instants that its \<^verbatim>\<open>time.Now()\<close> calls
    read and the choice \<^verbatim>\<open>select\<close> makes between the channel and the timer.
    A list of such iterations is the fuel of the loop.
\<close>

subsection \<open>Bytes, errors, durations\<close>

type_synonym byte = "8 word"

text \<open>
  \<^verbatim>\<open>io.EOF\<close>, the package's \<^verbatim>\<open>errTimeout\<close>, and any other error value an
  underlying reader may return.
\<close>

datatype error = EOF | errTimeout | OtherError nat

text \<open>
  \<^verbatim>\<open>time.Duration\<close> is an \<^verbatim>\<open>int64\<close> count of nanoseconds. Durations are
  integers here, with the wrap-around of \<^verbatim>\<open>int64\<close> subtraction written out.
  Instants are nanoseconds on the monotonic clock; \<^verbatim>\<open>Time.Sub\<close> saturates at
  the least and the greatest duration.
\<close>

definition minDuration :: int where
  "minDuration = - 9223372036854775808"

definition maxDuration :: int where
  "maxDuration = 9223372036854775807"

definition int64 :: "int \<Rightarrow> int" where
  "int64 x = (x + 9223372036854775808) mod 18446744073709551616 - 9223372036854775808"

definition Sub :: "int \<Rightarrow> int \<Rightarrow> int" where
  "Sub t u = (if maxDuration < t - u then maxDuration
              else if t - u < minDuration then minDuration
              else t - u)"

subsection \<open>bytes.Buffer\<close>

text \<open>
  The unread part of a \<^verbatim>\<open>bytes.Buffer\<close> is a list of bytes. \<^verbatim>\<open>Buffer.Read(p)\<close>
  with \<^verbatim>\<open>len(p) = L\<close>: on an empty buffer it returns \<^verbatim>\<open>(0, nil)\<close> when
  \<^verbatim>\<open>L = 0\<close> and \<^verbatim>\<open>(0, io.EOF)\<close> otherwise; on a non-empty buffer it copies
  the first \<^verbatim>\<open>min L (Len())\<close> bytes out and returns their number with a nil
  error. The result carries the bytes copied into \<^verbatim>\<open>p\<close>; the count returned
  by the Go function is their length.
\<close>

definition Buffer_Read :: "byte list \<Rightarrow> nat \<Rightarrow> (byte list \<times> error option) \<times> byte list" where
  "Buffer_Read buf L =
     (if buf = [] then (if L = 0 then (([], None), []) else (([], Some EOF), []))
      else ((take L buf, None), drop L buf))"

subsection \<open>The reader and its producer goroutine\<close>

text \<open>
  One answer of the underlying \<^verbatim>\<open>io.Reader\<close> to \<^verbatim>\<open>Read(tmp)\<close>, as a function
  of \<^verbatim>\<open>len(tmp)\<close>: the bytes \<^verbatim>\<open>tmp[0:length]\<close> and the error. A reader may
  return bytes and an error in the same answer. The block size is a natural
  number: with a negative one \<^verbatim>\<open>make\<close> panics in the goroutine.
\<close>

type_synonym source_read = "nat \<Rightarrow> byte list \<times> error option"

datatype chan_op = Send "byte list" | Close

record NBReader =
  blockSize :: nat
  reader :: "source_read list"
  dataChan :: "chan_op list"
  buffer :: "byte list"
  chunkTimeout :: int
  forceTimeout :: int
  isEOF :: bool

text \<open>
  \<^verbatim>\<open>readInput\<close>: ask the reader for up to \<^verbatim>\<open>blockSize\<close> bytes; on an error leave
  the loop and close the channel; otherwise send \<^verbatim>\<open>tmp[0:length]\<close> and go on.
  The result is the sequence of channel operations the goroutine performs.
\<close>

fun readInput :: "nat \<Rightarrow> source_read list \<Rightarrow> chan_op list" where
  "readInput bs [] = []"
| "readInput bs (rd # rest) =
     (case rd bs of
        (tmp, Some e) \<Rightarrow> [Close]
      | (tmp, None) \<Rightarrow> Send tmp # readInput bs rest)"

text \<open>
  An \<^verbatim>\<open>Option\<close> is a function on the reader under construction. The fields are
  unexported, so the package's two constructors give every option that can
  change one; an option is the constructor that made it and its argument.
\<close>

datatype Option = ChunkTimeout int | Timeout int

fun apply_Option :: "Option \<Rightarrow> NBReader \<Rightarrow> NBReader" where
  "apply_Option (ChunkTimeout duration) r = r\<lparr>chunkTimeout := duration\<rparr>"
| "apply_Option (Timeout duration) r = r\<lparr>forceTimeout := duration\<rparr>"

text \<open>
  \<^verbatim>\<open>NewNBReader\<close>: the zero value of every field that is not given, the options
  applied in order, then the goroutine started on the configured reader.
\<close>

definition NewNBReader :: "source_read list \<Rightarrow> nat \<Rightarrow> Option list \<Rightarrow> NBReader" where
  "NewNBReader rd bs options =
     (let r = fold apply_Option options
                \<lparr>blockSize = bs, reader = rd, dataChan = [], buffer = [],
                 chunkTimeout = 0, forceTimeout = 0, isEOF = False\<rparr>
      in r\<lparr>dataChan := readInput (blockSize r) (reader r)\<rparr>)"

subsection \<open>Read\<close>

text \<open>
  What the environment decides in one iteration of the loop of \<^verbatim>\<open>Read\<close>: the
  instants read by \<^verbatim>\<open>time.Now()\<close> at lines 96, 97, 104 and 114, and, for the
  timeout handed to \<^verbatim>\<open>readWithTimeout\<close>, whether \<^verbatim>\<open>select\<close> takes the
  channel case (when the channel has something to deliver) or the timer case.
\<close>

record iteration =
  now_lastStart :: int
  now_remaining :: int
  recv_first :: "int \<Rightarrow> bool"
  now_duration :: int
  now_force :: int

text \<open>
  \<^verbatim>\<open>readWithTimeout\<close>. A receive on the open channel takes the producer's next
  send and appends it to the buffer; a receive on the closed channel yields
  the nil slice (appending nothing) and \<^verbatim>\<open>io.EOF\<close>, and leaves the channel
  closed. When the producer has nothing more to offer, only the timer is left.
\<close>

definition readWithTimeout :: "NBReader \<Rightarrow> int \<Rightarrow> iteration \<Rightarrow> (nat \<times> error option) \<times> NBReader" where
  "readWithTimeout r timeout it =
     (if recv_first it timeout then
        (case dataChan r of
           Send data # rest \<Rightarrow>
             ((length data, None), r\<lparr>buffer := buffer r @ data, dataChan := rest\<rparr>)
         | Close # rest \<Rightarrow> ((0, Some EOF), r)
         | [] \<Rightarrow> ((0, Some errTimeout), r))
      else ((0, Some errTimeout), r))"

definition remaining_of :: "NBReader \<Rightarrow> int \<Rightarrow> iteration \<Rightarrow> int" where
  "remaining_of r start it = int64 (forceTimeout r - Sub (now_remaining it) start)"

definition nextTimeout_of :: "NBReader \<Rightarrow> int \<Rightarrow> int" where
  "nextTimeout_of r remaining =
     (if chunkTimeout r = 0 \<or> chunkTimeout r > remaining then remaining
      else chunkTimeout r)"

datatype 'a loop_exit = Break 'a | Continue 'a

text \<open>The body of the loop, lines 96 to 116.\<close>

definition loop_body :: "NBReader \<Rightarrow> int \<Rightarrow> iteration \<Rightarrow> NBReader loop_exit" where
  "loop_body r start it =
     (let remaining = remaining_of r start it;
          nextTimeout = nextTimeout_of r remaining;
          res = readWithTimeout r nextTimeout it;
          err = snd (fst res);
          r1 = snd res;
          duration = Sub (now_duration it) (now_lastStart it)
      in if err = Some errTimeout \<and> duration \<ge> chunkTimeout r1 then Break r1
         else if err = Some EOF then Break (r1\<lparr>isEOF := True\<rparr>)
         else if Sub (now_force it) start \<ge> forceTimeout r1 then Break r1
         else Continue r1)"

text \<open>
  The loop, lines 95 to 117, for a caller's slice of length \<open>L\<close>. It returns
  the reader and the iterations it has not used, and \<open>None\<close> when it needs
  another iteration and the list has none.
\<close>

fun read_loop :: "NBReader \<Rightarrow> nat \<Rightarrow> int \<Rightarrow> iteration list \<Rightarrow> (NBReader \<times> iteration list) option" where
  "read_loop r L start [] = (if length (buffer r) < L then None else Some (r, []))"
| "read_loop r L start (it # its) =
     (if length (buffer r) < L then
        (case loop_body r start it of
           Break r1 \<Rightarrow> Some (r1, its)
         | Continue r1 \<Rightarrow> read_loop r1 L start its)
      else Some (r, it # its))"

text \<open>
  \<^verbatim>\<open>Read\<close>, for a slice of length \<open>L\<close>, called at instant \<open>start\<close>. The result is
  the bytes written to the slice (their number is the count Go returns) and
  the error, then the reader and the iterations left.
\<close>

definition Read :: "NBReader \<Rightarrow> nat \<Rightarrow> int \<Rightarrow> iteration list
    \<Rightarrow> ((byte list \<times> error option) \<times> NBReader \<times> iteration list) option" where
  "Read r L start its =
     (if L \<le> length (buffer r) then
        (let res = Buffer_Read (buffer r) L
         in Some ((fst (fst res), None), r\<lparr>buffer := snd res\<rparr>, its))
      else if isEOF r then
        (let res = Buffer_Read (buffer r) L
         in Some (fst res, r\<lparr>buffer := snd res\<rparr>, its))
      else
        (case read_loop r L start its of
           None \<Rightarrow> None
         | Some (r1, its1) \<Rightarrow>
             (let res = Buffer_Read (buffer r1) L
              in Some ((fst (fst res), None), r1\<lparr>buffer := snd res\<rparr>, its1))))"

text \<open>
  A caller's successive calls: the length of the slice, the instant of the
  call and the iterations the environment offers to it.
\<close>

record call =
  req_len :: nat
  call_start :: int
  call_iters :: "iteration list"

fun Reads :: "NBReader \<Rightarrow> call list \<Rightarrow> ((byte list \<times> error option) list \<times> NBReader) option" where
  "Reads r [] = Some ([], r)"
| "Reads r (c # cs) =
     (case Read r (req_len c) (call_start c) (call_iters c) of
        None \<Rightarrow> None
      | Some (res, r1, its1) \<Rightarrow>
          (case Reads r1 cs of
             None \<Rightarrow> None
           | Some (ress, r2) \<Rightarrow> Some (res # ress, r2)))"

subsection \<open>Observations\<close>

text \<open>
  The bytes the producer has still to hand over: those of its pending sends.
  Nothing is sent after the close.
\<close>

fun chan_bytes :: "chan_op list \<Rightarrow> byte list" where
  "chan_bytes [] = []"
| "chan_bytes (Send data # ops) = data @ chan_bytes ops"
| "chan_bytes (Close # ops) = []"

text \<open>The channel is closed: a receive yields the zero value and \<^verbatim>\<open>ok = false\<close>.\<close>

fun closed :: "chan_op list \<Rightarrow> bool" where
  "closed (Close # ops) = True"
| "closed ops = False"

text \<open>All the bytes the reader hands out when asked for \<open>bs\<close> bytes each time.\<close>

definition source_bytes :: "nat \<Rightarrow> source_read list \<Rightarrow> byte list" where
  "source_bytes bs src = concat (map (\<lambda>rd. fst (rd bs)) src)"

text \<open>
  The error that \<^verbatim>\<open>readWithTimeout\<close> returns in an iteration, and the reader
  it leaves.
\<close>

definition wait_err :: "NBReader \<Rightarrow> int \<Rightarrow> iteration \<Rightarrow> error option" where
  "wait_err r start it =
     snd (fst (readWithTimeout r (nextTimeout_of r (remaining_of r start it)) it))"

definition after_wait :: "NBReader \<Rightarrow> int \<Rightarrow> iteration \<Rightarrow> NBReader" where
  "after_wait r start it =
     snd (readWithTimeout r (nextTimeout_of r (remaining_of r start it)) it)"

subsection \<open>Example runs\<close>

text \<open>
  Inputs of the examples below. An iteration in which the channel is served
  at once and the clock stands still; a call with a slice of 4 bytes that may
  use one such iteration.
\<close>

abbreviation ex_tick :: iteration where
  "ex_tick \<equiv> \<lparr>now_lastStart = 0, now_remaining = 0, recv_first = \<lambda>d. True,
               now_duration = 0, now_force = 0\<rparr>"

abbreviation ex_ask4 :: call where
  "ex_ask4 \<equiv> \<lparr>req_len = 4, call_start = 0, call_iters = [ex_tick]\<rparr>"

text \<open>
  Readers that answer \<^verbatim>\<open>("ab", nil)\<close> and then \<^verbatim>\<open>(0, io.EOF)\<close>, or
  \<^verbatim>\<open>("cd", io.EOF)\<close>: the last bytes together with the error.
\<close>

abbreviation ex_src_ab_eof :: "source_read list" where
  "ex_src_ab_eof \<equiv> [\<lambda>n. ([97, 98], None), \<lambda>n. ([], Some EOF)]"

abbreviation ex_src_cd_with_eof :: "source_read list" where
  "ex_src_cd_with_eof \<equiv> [\<lambda>n. ([97, 98], None), \<lambda>n. ([99, 100], Some EOF)]"

text \<open>
  The reader of \<open>ex_src_ab_eof\<close> after the call that returned \<^verbatim>\<open>"ab"\<close>, and after
  the next call, which found the channel closed; a reader past the end of the
  stream with no source left.
\<close>

abbreviation ex_open :: NBReader where
  "ex_open \<equiv> \<lparr>blockSize = 4, reader = ex_src_ab_eof, dataChan = [Close], buffer = [],
               chunkTimeout = 0, forceTimeout = 0, isEOF = False\<rparr>"

abbreviation ex_ended :: NBReader where
  "ex_ended \<equiv> \<lparr>blockSize = 4, reader = ex_src_ab_eof, dataChan = [Close], buffer = [],
                chunkTimeout = 0, forceTimeout = 0, isEOF = True\<rparr>"

abbreviation ex_drained :: NBReader where
  "ex_drained \<equiv> \<lparr>blockSize = 4, reader = [], dataChan = [Close], buffer = [],
                  chunkTimeout = 0, forceTimeout = 0, isEOF = True\<rparr>"

text \<open>
  A reader with 3 bytes buffered; a reader without timeouts whose producer
  has 2 bytes to send, and an iteration of a call made at instant 2.
\<close>

abbreviation ex_buffered :: NBReader where
  "ex_buffered \<equiv> \<lparr>blockSize = 4, reader = [], dataChan = [], buffer = [1, 2, 3],
                   chunkTimeout = 10, forceTimeout = 100, isEOF = False\<rparr>"

abbreviation ex_pending :: NBReader where
  "ex_pending \<equiv> \<lparr>blockSize = 4, reader = [], dataChan = [Send [1, 2]], buffer = [],
                  chunkTimeout = 0, forceTimeout = 0, isEOF = False\<rparr>"

abbreviation ex_late :: iteration where
  "ex_late \<equiv> \<lparr>now_lastStart = 3, now_remaining = 3, recv_first = \<lambda>d. True,
               now_duration = 4, now_force = 4\<rparr>"

text \<open>
  A reader with block size 2, an overall timeout of 100 and a chunk timeout
  of 10, on a source that gives 2 bytes and then blocks; an iteration in
  which the bytes arrive at instant 5, and one in which the timer fires at
  instant 15.
\<close>

abbreviation ex_stalling :: NBReader where
  "ex_stalling \<equiv> NewNBReader [\<lambda>n. ([1, 2], None)] 2 [Timeout 100, ChunkTimeout 10]"

abbreviation ex_arrival :: iteration where
  "ex_arrival \<equiv> \<lparr>now_lastStart = 0, now_remaining = 0, recv_first = \<lambda>d. True,
                  now_duration = 5, now_force = 5\<rparr>"

abbreviation ex_expiry :: iteration where
  "ex_expiry \<equiv> \<lparr>now_lastStart = 5, now_remaining = 5, recv_first = \<lambda>d. False,
                 now_duration = 15, now_force = 15\<rparr>"

section \<open>Properties\<close>

subsection \<open>One wait, one iteration, the loop\<close>

lemma readWithTimeout_config:
  "chunkTimeout (snd (readWithTimeout r t it)) = chunkTimeout r"
  "forceTimeout (snd (readWithTimeout r t it)) = forceTimeout r"
  "blockSize (snd (readWithTimeout r t it)) = blockSize r"
  "reader (snd (readWithTimeout r t it)) = reader r"
  "isEOF (snd (readWithTimeout r t it)) = isEOF r"
  by (simp_all add: readWithTimeout_def split: list.splits chan_op.splits)

lemma readWithTimeout_err:
  "snd (fst (readWithTimeout r t it)) \<in> {None, Some EOF, Some errTimeout}"
  by (simp add: readWithTimeout_def split: list.splits chan_op.splits)

lemma readWithTimeout_bytes:
  "buffer (snd (readWithTimeout r t it)) @ chan_bytes (dataChan (snd (readWithTimeout r t it)))
     = buffer r @ chan_bytes (dataChan r)"
  by (simp add: readWithTimeout_def split: list.splits chan_op.splits)

lemma readWithTimeout_closed:
  "snd (fst (readWithTimeout r t it)) = Some EOF \<Longrightarrow>
     closed (dataChan (snd (readWithTimeout r t it)))"
  by (auto simp add: readWithTimeout_def split: list.splits chan_op.splits if_splits)

lemma loop_body_unfold:
  "loop_body r start it =
     (if wait_err r start it = Some errTimeout
          \<and> chunkTimeout r \<le> Sub (now_duration it) (now_lastStart it)
      then Break (after_wait r start it)
      else if wait_err r start it = Some EOF then Break ((after_wait r start it)\<lparr>isEOF := True\<rparr>)
      else if forceTimeout r \<le> Sub (now_force it) start then Break (after_wait r start it)
      else Continue (after_wait r start it))"
  by (simp add: loop_body_def wait_err_def after_wait_def Let_def readWithTimeout_config)

lemma after_wait_config:
  "chunkTimeout (after_wait r start it) = chunkTimeout r"
  "forceTimeout (after_wait r start it) = forceTimeout r"
  "blockSize (after_wait r start it) = blockSize r"
  "reader (after_wait r start it) = reader r"
  "isEOF (after_wait r start it) = isEOF r"
  by (simp_all add: after_wait_def readWithTimeout_config)

lemma Read_isEOF:
  "isEOF r \<Longrightarrow> Read r L start its =
     Some ((take L (buffer r), if buffer r = [] \<and> 0 < L then Some EOF else None),
           r\<lparr>buffer := drop L (buffer r)\<rparr>, its)"
  by (auto simp add: Read_def Buffer_Read_def Let_def)


lemma after_wait_bytes:
  "buffer (after_wait r start it) @ chan_bytes (dataChan (after_wait r start it))
     = buffer r @ chan_bytes (dataChan r)"
  by (simp add: after_wait_def readWithTimeout_bytes)

lemma wait_err_closed:
  "wait_err r start it = Some EOF \<Longrightarrow> closed (dataChan (after_wait r start it))"
  unfolding wait_err_def after_wait_def by (rule readWithTimeout_closed)

lemma loop_body_Break_bytes:
  "loop_body r start it = Break r' \<Longrightarrow>
     buffer r' @ chan_bytes (dataChan r') = buffer r @ chan_bytes (dataChan r)"
  using after_wait_bytes [of r start it]
  by (auto simp add: loop_body_unfold split: if_splits)

lemma loop_body_Continue:
  "loop_body r start it = Continue r' \<Longrightarrow> r' = after_wait r start it"
  by (auto simp add: loop_body_unfold split: if_splits)

lemma loop_body_Break_isEOF:
  "loop_body r start it = Break r' \<Longrightarrow>
     isEOF r' = (isEOF r \<or> wait_err r start it = Some EOF)"
  by (auto simp add: loop_body_unfold after_wait_config split: if_splits)

lemma loop_body_Break_config:
  "loop_body r start it = Break r' \<Longrightarrow>
     chunkTimeout r' = chunkTimeout r \<and> forceTimeout r' = forceTimeout r
     \<and> blockSize r' = blockSize r \<and> reader r' = reader r"
  by (auto simp add: loop_body_unfold after_wait_config split: if_splits)

lemma loop_body_Break_closed:
  "loop_body r start it = Break r' \<Longrightarrow> wait_err r start it = Some EOF \<Longrightarrow>
     closed (dataChan r')"
  using wait_err_closed [of r start it]
  by (auto simp add: loop_body_unfold split: if_splits)

lemma read_loop_bytes:
  "read_loop r L start its = Some (r', its') \<Longrightarrow>
     buffer r' @ chan_bytes (dataChan r') = buffer r @ chan_bytes (dataChan r)"
proof (induction its arbitrary: r)
  case Nil
  then show ?case by (simp split: if_splits)
next
  case (Cons it its)
  show ?case
  proof (cases "length (buffer r) < L")
    case False
    with Cons.prems show ?thesis by simp
  next
    case True
    show ?thesis
    proof (cases "loop_body r start it")
      case (Break r1)
      with True Cons.prems have "r' = r1" by simp
      with Break show ?thesis by (simp add: loop_body_Break_bytes)
    next
      case (Continue r1)
      with True Cons.prems have "read_loop r1 L start its = Some (r', its')" by simp
      from Cons.IH [OF this] loop_body_Continue [OF Continue] after_wait_bytes [of r start it]
      show ?thesis by simp
    qed
  qed
qed

lemma read_loop_config:
  "read_loop r L start its = Some (r', its') \<Longrightarrow>
     chunkTimeout r' = chunkTimeout r \<and> forceTimeout r' = forceTimeout r
     \<and> blockSize r' = blockSize r \<and> reader r' = reader r"
proof (induction its arbitrary: r)
  case Nil
  then show ?case by (simp split: if_splits)
next
  case (Cons it its)
  show ?case
  proof (cases "length (buffer r) < L")
    case False
    with Cons.prems show ?thesis by simp
  next
    case True
    show ?thesis
    proof (cases "loop_body r start it")
      case (Break r1)
      with True Cons.prems have "r' = r1" by simp
      with Break show ?thesis by (simp add: loop_body_Break_config)
    next
      case (Continue r1)
      with True Cons.prems have "read_loop r1 L start its = Some (r', its')" by simp
      from Cons.IH [OF this] loop_body_Continue [OF Continue]
      show ?thesis by (simp add: after_wait_config)
    qed
  qed
qed

lemma read_loop_isEOF:
  "read_loop r L start its = Some (r', its') \<Longrightarrow> \<not> isEOF r \<Longrightarrow> isEOF r' \<Longrightarrow>
     closed (dataChan r')"
proof (induction its arbitrary: r)
  case Nil
  then show ?case by (simp split: if_splits)
next
  case (Cons it its)
  show ?case
  proof (cases "length (buffer r) < L")
    case False
    with Cons.prems show ?thesis by simp
  next
    case True
    show ?thesis
    proof (cases "loop_body r start it")
      case (Break r1)
      with True Cons.prems have eq: "r' = r1" by simp
      with Break Cons.prems have "wait_err r start it = Some EOF"
        by (simp add: loop_body_Break_isEOF)
      with Break eq show ?thesis by (simp add: loop_body_Break_closed)
    next
      case (Continue r1)
      with True Cons.prems have run: "read_loop r1 L start its = Some (r', its')" by simp
      have "\<not> isEOF r1"
        using loop_body_Continue [OF Continue] Cons.prems(2) by (simp add: after_wait_config)
      from Cons.IH [OF run this Cons.prems(3)] show ?thesis .
    qed
  qed
qed

lemma read_loop_suffix:
  "read_loop r L start its = Some (r', its') \<Longrightarrow> \<exists>used. its = used @ its'"
proof (induction its arbitrary: r)
  case Nil
  then show ?case by (simp split: if_splits)
next
  case (Cons it its)
  show ?case
  proof (cases "length (buffer r) < L")
    case False
    with Cons.prems show ?thesis by simp
  next
    case True
    show ?thesis
    proof (cases "loop_body r start it")
      case (Break r1)
      with True Cons.prems have "its' = its" by simp
      then have "it # its = [it] @ its'" by simp
      then show ?thesis by blast
    next
      case (Continue r1)
      with True Cons.prems have "read_loop r1 L start its = Some (r', its')" by simp
      from Cons.IH [OF this] obtain used where "its = used @ its'" by blast
      then have "it # its = (it # used) @ its'" by simp
      then show ?thesis by blast
    qed
  qed
qed

lemma read_loop_deadline:
  "\<exists>it\<in>set its. forceTimeout r \<le> Sub (now_force it) start \<Longrightarrow>
     \<exists>x. read_loop r L start its = Some x"
proof (induction its arbitrary: r)
  case Nil
  then show ?case by simp
next
  case (Cons it its)
  show ?case
  proof (cases "length (buffer r) < L")
    case False
    then show ?thesis by simp
  next
    case True
    show ?thesis
    proof (cases "loop_body r start it")
      case (Break r1)
      with True show ?thesis by simp
    next
      case (Continue r1)
      then have late: "\<not> forceTimeout r \<le> Sub (now_force it) start"
        by (auto simp add: loop_body_unfold split: if_splits)
      have cfg: "forceTimeout r1 = forceTimeout r"
        using loop_body_Continue [OF Continue] by (simp add: after_wait_config)
      from Cons.prems late have "\<exists>it\<in>set its. forceTimeout r1 \<le> Sub (now_force it) start"
        by (auto simp add: cfg)
      from Cons.IH [OF this] True Continue show ?thesis by simp
    qed
  qed
qed

lemma Buffer_Read_data:
  "fst (fst (Buffer_Read buf L)) = take L buf" "snd (Buffer_Read buf L) = drop L buf"
  by (simp_all add: Buffer_Read_def)

lemma Read_fast:
  "L \<le> length (buffer r) \<Longrightarrow>
     Read r L start its = Some ((take L (buffer r), None), r\<lparr>buffer := drop L (buffer r)\<rparr>, its)"
  by (simp add: Read_def Let_def Buffer_Read_data)

lemma Read_slow:
  "\<not> L \<le> length (buffer r) \<Longrightarrow> \<not> isEOF r \<Longrightarrow>
     Read r L start its =
       (case read_loop r L start its of
          None \<Rightarrow> None
        | Some (r1, its1) \<Rightarrow>
            Some ((take L (buffer r1), None), r1\<lparr>buffer := drop L (buffer r1)\<rparr>, its1))"
  by (simp add: Read_def Let_def Buffer_Read_data split: option.splits)

lemma Read_bytes:
  assumes "Read r L start its = Some ((data, err), r', its')"
  shows "data @ buffer r' @ chan_bytes (dataChan r') = buffer r @ chan_bytes (dataChan r)"
proof (cases "L \<le> length (buffer r) \<or> isEOF r")
  case True
  then have "Read r L start its =
     Some ((take L (buffer r), if buffer r = [] \<and> 0 < L then Some EOF else None),
           r\<lparr>buffer := drop L (buffer r)\<rparr>, its)"
    using Read_fast [of L r start its] Read_isEOF [of r L start its] by auto
  with assms show ?thesis by auto
next
  case False
  with assms Read_slow [of L r start its]
  obtain r1 where run: "read_loop r L start its = Some (r1, its')"
    and d: "data = take L (buffer r1)" and r': "r' = r1\<lparr>buffer := drop L (buffer r1)\<rparr>"
    by (auto split: option.splits)
  have "data @ buffer r' = buffer r1" "dataChan r' = dataChan r1"
    by (simp_all add: d r')
  with read_loop_bytes [OF run] show ?thesis
    by (metis append_assoc)
qed

subsection \<open>A call, a sequence of calls\<close>


lemma Read_returns:
  assumes "L \<le> length (buffer r) \<or> isEOF r
           \<or> (\<exists>it\<in>set its. forceTimeout r \<le> Sub (now_force it) start)"
  shows "\<exists>x. Read r L start its = Some x"
proof (cases "L \<le> length (buffer r) \<or> isEOF r")
  case True
  then show ?thesis using Read_fast [of L r start its] Read_isEOF [of r L start its] by auto
next
  case False
  with assms have "\<exists>it\<in>set its. forceTimeout r \<le> Sub (now_force it) start" by blast
  from read_loop_deadline [OF this] obtain x where "read_loop r L start its = Some x" by blast
  with False show ?thesis by (cases x) (simp add: Read_slow)
qed

lemma Read_result:
  assumes "Read r L start its = Some ((data, err), r', its')"
  shows "(L \<le> length (buffer r) \<or> isEOF r) \<and> its' = its
           \<and> data = take L (buffer r) \<and> r' = r\<lparr>buffer := drop L (buffer r)\<rparr>
           \<and> err = (if buffer r = [] \<and> 0 < L then Some EOF else None)
         \<or> length (buffer r) < L \<and> \<not> isEOF r \<and> err = None
           \<and> (\<exists>r1. read_loop r L start its = Some (r1, its')
                 \<and> data = take L (buffer r1) \<and> r' = r1\<lparr>buffer := drop L (buffer r1)\<rparr>)"
proof (cases "L \<le> length (buffer r) \<or> isEOF r")
  case True
  then have "Read r L start its =
     Some ((take L (buffer r), if buffer r = [] \<and> 0 < L then Some EOF else None),
           r\<lparr>buffer := drop L (buffer r)\<rparr>, its)"
    using Read_fast [of L r start its] Read_isEOF [of r L start its] by auto
  with assms True show ?thesis by auto
next
  case False
  with assms Read_slow [of L r start its] show ?thesis
    by (auto split: option.splits)
qed

lemma Read_closed:
  assumes "Read r L start its = Some ((data, err), r', its')" and "\<not> isEOF r" and "isEOF r'"
  shows "closed (dataChan r')"
  using Read_result [OF assms(1)] assms(2,3)
proof (elim disjE conjE exE)
  fix r1
  assume run: "read_loop r L start its = Some (r1, its')"
    and r': "r' = r1\<lparr>buffer := drop L (buffer r1)\<rparr>"
  from r' assms(3) have "isEOF r1" by simp
  from read_loop_isEOF [OF run assms(2) this] r' show ?thesis by simp
qed auto


lemma Read_closed_inv:
  assumes "Read r L start its = Some ((data, err), r', its')"
    and "isEOF r \<longrightarrow> closed (dataChan r)" and "isEOF r'"
  shows "closed (dataChan r')"
proof (cases "isEOF r")
  case True
  with assms(1) Read_isEOF [of r L start its] have "dataChan r' = dataChan r" by auto
  with True assms(2) show ?thesis by simp
next
  case False
  from Read_closed [OF assms(1) False assms(3)] show ?thesis .
qed

lemma Reads_bytes:
  "Reads r cs = Some (ress, r') \<Longrightarrow>
     concat (map fst ress) @ buffer r' @ chan_bytes (dataChan r')
       = buffer r @ chan_bytes (dataChan r)"
proof (induction cs arbitrary: r ress)
  case Nil
  then show ?case by simp
next
  case (Cons c cs)
  from Cons.prems obtain data err r1 its1 ress1
    where one: "Read r (req_len c) (call_start c) (call_iters c) = Some ((data, err), r1, its1)"
      and rest: "Reads r1 cs = Some (ress1, r')"
      and ress: "ress = (data, err) # ress1"
    by (auto split: option.splits)
  from Cons.IH [OF rest] Read_bytes [OF one] ress show ?case by simp
qed

lemma Reads_closed_inv:
  "Reads r cs = Some (ress, r') \<Longrightarrow> isEOF r \<longrightarrow> closed (dataChan r) \<Longrightarrow>
     isEOF r' \<longrightarrow> closed (dataChan r')"
proof (induction cs arbitrary: r ress)
  case Nil
  then show ?case by simp
next
  case (Cons c cs)
  from Cons.prems(1) obtain data err r1 its1 ress1
    where one: "Read r (req_len c) (call_start c) (call_iters c) = Some ((data, err), r1, its1)"
      and rest: "Reads r1 cs = Some (ress1, r')"
    by (auto split: option.splits)
  have "isEOF r1 \<longrightarrow> closed (dataChan r1)"
    using Read_closed_inv [OF one Cons.prems(2)] by blast
  from Cons.IH [OF rest this] show ?case .
qed

lemma Reads_isEOF:
  "isEOF r \<Longrightarrow>
     \<exists>ress r'. Reads r cs = Some (ress, r') \<and> isEOF r' \<and> dataChan r' = dataChan r
        \<and> concat (map fst ress) @ buffer r' = buffer r
        \<and> (\<forall>res\<in>set ress. snd res = None \<or> (fst res = [] \<and> snd res = Some EOF))"
proof (induction cs arbitrary: r)
  case Nil
  then show ?case by simp
next
  case (Cons c cs)
  let ?r1 = "r\<lparr>buffer := drop (req_len c) (buffer r)\<rparr>"
  have one: "Read r (req_len c) (call_start c) (call_iters c) =
     Some ((take (req_len c) (buffer r),
            if buffer r = [] \<and> 0 < req_len c then Some EOF else None), ?r1, call_iters c)"
    using Cons.prems by (rule Read_isEOF)
  have "isEOF ?r1" using Cons.prems by simp
  from Cons.IH [OF this] obtain ress r' where
    rest: "Reads ?r1 cs = Some (ress, r')" and e: "isEOF r'"
    and ch: "dataChan r' = dataChan ?r1"
    and bts: "concat (map fst ress) @ buffer r' = buffer ?r1"
    and errs: "\<forall>res\<in>set ress. snd res = None \<or> (fst res = [] \<and> snd res = Some EOF)"
    by blast
  from one rest have "Reads r (c # cs) =
     Some ((take (req_len c) (buffer r),
            if buffer r = [] \<and> 0 < req_len c then Some EOF else None) # ress, r')"
    by simp
  moreover have "concat (map fst ((take (req_len c) (buffer r),
            if buffer r = [] \<and> 0 < req_len c then Some EOF else None) # ress)) @ buffer r'
       = buffer r"
    using bts by simp
  ultimately show ?case using e ch errs by auto
qed

lemma readInput_sends:
  "readInput bs src =
     map (\<lambda>rd. Send (fst (rd bs))) (takeWhile (\<lambda>rd. snd (rd bs) = None) src)
     @ (if \<exists>rd\<in>set src. snd (rd bs) \<noteq> None then [Close] else [])"
  by (induction src) (auto split: prod.splits option.splits)

lemma fold_apply_Option:
  "blockSize (fold apply_Option options r) = blockSize r"
  "reader (fold apply_Option options r) = reader r"
  "dataChan (fold apply_Option options r) = dataChan r"
  "buffer (fold apply_Option options r) = buffer r"
  "isEOF (fold apply_Option options r) = isEOF r"
proof (induction options arbitrary: r)
  case Nil
  { case 1 show ?case by simp }
  { case 2 show ?case by simp }
  { case 3 show ?case by simp }
  { case 4 show ?case by simp }
  { case 5 show ?case by simp }
next
  case (Cons a options)
  { case 1 show ?case by (cases a) (simp_all add: Cons.IH) }
  { case 2 show ?case by (cases a) (simp_all add: Cons.IH) }
  { case 3 show ?case by (cases a) (simp_all add: Cons.IH) }
  { case 4 show ?case by (cases a) (simp_all add: Cons.IH) }
  { case 5 show ?case by (cases a) (simp_all add: Cons.IH) }
qed

lemma NewNBReader_fields:
  "blockSize (NewNBReader src bs options) = bs"
  "reader (NewNBReader src bs options) = src"
  "dataChan (NewNBReader src bs options) = readInput bs src"
  "buffer (NewNBReader src bs options) = []"
  "isEOF (NewNBReader src bs options) = False"
  by (simp_all add: NewNBReader_def Let_def fold_apply_Option)

subsection \<open>The channel and the producer\<close>


lemma readWithTimeout_chan:
  "set (dataChan (snd (readWithTimeout r t it))) \<subseteq> set (dataChan r)"
  by (auto simp add: readWithTimeout_def split: list.splits chan_op.splits)

lemma loop_body_Break_chan:
  "loop_body r start it = Break r' \<Longrightarrow> set (dataChan r') \<subseteq> set (dataChan r)"
  using readWithTimeout_chan [of r "nextTimeout_of r (remaining_of r start it)" it]
  by (auto simp add: loop_body_unfold after_wait_def split: if_splits)

lemma read_loop_chan:
  "read_loop r L start its = Some (r', its') \<Longrightarrow> set (dataChan r') \<subseteq> set (dataChan r)"
proof (induction its arbitrary: r)
  case Nil
  then show ?case by (simp split: if_splits)
next
  case (Cons it its)
  show ?case
  proof (cases "length (buffer r) < L")
    case False
    with Cons.prems show ?thesis by simp
  next
    case True
    show ?thesis
    proof (cases "loop_body r start it")
      case (Break r1)
      with True Cons.prems have "r' = r1" by simp
      with Break show ?thesis by (simp add: loop_body_Break_chan)
    next
      case (Continue r1)
      with True Cons.prems have "read_loop r1 L start its = Some (r', its')" by simp
      from Cons.IH [OF this] have "set (dataChan r') \<subseteq> set (dataChan r1)" .
      also have "set (dataChan r1) \<subseteq> set (dataChan r)"
        using loop_body_Continue [OF Continue]
          readWithTimeout_chan [of r "nextTimeout_of r (remaining_of r start it)" it]
        by (simp add: after_wait_def)
      finally show ?thesis .
    qed
  qed
qed

lemma Read_chan:
  assumes "Read r L start its = Some ((data, err), r', its')"
  shows "set (dataChan r') \<subseteq> set (dataChan r)"
  using Read_result [OF assms]
proof (elim disjE conjE exE)
  fix r1
  assume "read_loop r L start its = Some (r1, its')"
    and "r' = r1\<lparr>buffer := drop L (buffer r1)\<rparr>"
  with read_loop_chan [of r L start its r1 its'] show ?thesis by simp
qed auto

lemma Reads_chan:
  "Reads r cs = Some (ress, r') \<Longrightarrow> set (dataChan r') \<subseteq> set (dataChan r)"
proof (induction cs arbitrary: r ress)
  case Nil
  then show ?case by simp
next
  case (Cons c cs)
  from Cons.prems obtain data err r1 its1 ress1
    where one: "Read r (req_len c) (call_start c) (call_iters c) = Some ((data, err), r1, its1)"
      and rest: "Reads r1 cs = Some (ress1, r')"
    by (auto split: option.splits)
  from Cons.IH [OF rest] Read_chan [OF one] show ?case by blast
qed

lemma closed_Close: "closed ops \<Longrightarrow> Close \<in> set ops"
  by (induction ops rule: closed.induct) simp_all

lemma readInput_Close:
  "Close \<in> set (readInput bs src) \<Longrightarrow> \<exists>rd\<in>set src. snd (rd bs) \<noteq> None"
proof (induction src)
  case Nil
  then show ?case by simp
next
  case (Cons rd src)
  show ?case
  proof (cases "snd (rd bs)")
    case None
    with Cons.prems have "Close \<in> set (readInput bs src)"
      by (cases "rd bs") auto
    from Cons.IH [OF this] show ?thesis by auto
  next
    case (Some e)
    then show ?thesis by auto
  qed
qed

lemma reachable_closed:
  assumes "Reads (NewNBReader src bs options) cs = Some (ress, r)" and "isEOF r"
  shows "closed (dataChan r) \<and> (\<exists>rd\<in>set src. snd (rd bs) \<noteq> None)"
proof -
  have c: "closed (dataChan r)"
    using Reads_closed_inv [OF assms(1)] assms(2) by (simp add: NewNBReader_fields)
  then have "Close \<in> set (dataChan r)" by (rule closed_Close)
  with Reads_chan [OF assms(1)] have "Close \<in> set (readInput bs src)"
    by (auto simp add: NewNBReader_fields)
  from readInput_Close [OF this] c show ?thesis by blast
qed

subsection \<open>Durations and single waits\<close>


lemma int64_id: "minDuration \<le> x \<Longrightarrow> x \<le> maxDuration \<Longrightarrow> int64 x = x"
  by (simp add: int64_def minDuration_def maxDuration_def)

lemma Sub_nonneg: "u \<le> t \<Longrightarrow> 0 \<le> Sub t u \<and> Sub t u \<le> maxDuration"
  by (simp add: Sub_def minDuration_def maxDuration_def)

lemma Sub_id: "minDuration \<le> t - u \<Longrightarrow> t - u \<le> maxDuration \<Longrightarrow> Sub t u = t - u"
  by (simp add: Sub_def)

lemma readWithTimeout_timed_out:
  "(snd (fst (readWithTimeout r t it)) = Some errTimeout) = (\<not> recv_first it t \<or> dataChan r = [])"
  by (simp add: readWithTimeout_def split: list.splits chan_op.splits)

lemma after_wait_buffer:
  "buffer (after_wait r start it) = buffer r
   \<or> (\<exists>data rest. dataChan r = Send data # rest
         \<and> buffer (after_wait r start it) = buffer r @ data)"
  by (auto simp add: after_wait_def readWithTimeout_def split: list.splits chan_op.splits)

lemma closed_chan_bytes: "closed ops \<Longrightarrow> chan_bytes ops = []"
  by (induction ops rule: closed.induct) simp_all

lemma readInput_bytes:
  "chan_bytes (readInput bs src) =
     concat (map (\<lambda>rd. fst (rd bs)) (takeWhile (\<lambda>rd. snd (rd bs) = None) src))"
  by (induction src) (auto split: prod.splits option.splits)

text \<open>
  Every byte of the reads that come before the reader's first error is
  returned by \<^verbatim>\<open>Read\<close>, is in the buffer, or is still with the producer, in
  the order of the reads and once each.
\<close>

lemma forwarded_bytes_kept:
  assumes "Reads (NewNBReader src bs options) cs = Some (ress, r)"
  shows "concat (map fst ress) @ buffer r @ chan_bytes (dataChan r)
     = concat (map (\<lambda>rd. fst (rd bs)) (takeWhile (\<lambda>rd. snd (rd bs) = None) src))"
  using Reads_bytes [OF assms] by (simp add: NewNBReader_fields readInput_bytes)

lemma forwarded_bytes_delivered:
  assumes "Reads (NewNBReader src bs options) cs = Some (ress, r)"
    and "isEOF r" and "buffer r = []"
  shows "concat (map fst ress)
     = concat (map (\<lambda>rd. fst (rd bs)) (takeWhile (\<lambda>rd. snd (rd bs) = None) src))"
proof -
  from reachable_closed [OF assms(1,2)] have "chan_bytes (dataChan r) = []"
    by (simp add: closed_chan_bytes)
  with forwarded_bytes_kept [OF assms(1)] assms(3) show ?thesis by simp
qed

text \<open>\<^verbatim>\<open>Read\<close> never looks at the block size.\<close>

lemma readWithTimeout_blockSize:
  "readWithTimeout (r\<lparr>blockSize := b\<rparr>) t it =
     (fst (readWithTimeout r t it), (snd (readWithTimeout r t it))\<lparr>blockSize := b\<rparr>)"
  by (simp add: readWithTimeout_def split: list.splits chan_op.splits)

lemma wait_blockSize:
  "wait_err (r\<lparr>blockSize := b\<rparr>) start it = wait_err r start it"
  "after_wait (r\<lparr>blockSize := b\<rparr>) start it = (after_wait r start it)\<lparr>blockSize := b\<rparr>"
  by (simp_all add: wait_err_def after_wait_def remaining_of_def nextTimeout_of_def
      readWithTimeout_blockSize)

lemma loop_body_blockSize:
  "loop_body (r\<lparr>blockSize := b\<rparr>) start it =
     (case loop_body r start it of
        Break r1 \<Rightarrow> Break (r1\<lparr>blockSize := b\<rparr>)
      | Continue r1 \<Rightarrow> Continue (r1\<lparr>blockSize := b\<rparr>))"
  by (simp add: loop_body_unfold wait_blockSize)

lemma read_loop_blockSize:
  "read_loop (r\<lparr>blockSize := b\<rparr>) L start its =
     map_option (\<lambda>(r1, its1). (r1\<lparr>blockSize := b\<rparr>, its1)) (read_loop r L start its)"
proof (induction its arbitrary: r)
  case Nil
  show ?case by simp
next
  case (Cons it its)
  show ?case
  proof (cases "loop_body r start it")
    case (Break r1)
    then show ?thesis by (simp add: loop_body_blockSize)
  next
    case (Continue r1)
    then show ?thesis by (simp add: loop_body_blockSize Cons.IH)
  qed
qed

lemma Read_blockSize:
  "Read (r\<lparr>blockSize := b\<rparr>) L start its =
     map_option (\<lambda>(res, r1, its1). (res, r1\<lparr>blockSize := b\<rparr>, its1)) (Read r L start its)"
proof (cases "L \<le> length (buffer r) \<or> isEOF r")
  case True
  then show ?thesis by (auto simp add: Read_def Let_def)
next
  case False
  then show ?thesis
    by (cases "read_loop r L start its") (auto simp add: Read_def Let_def read_loop_blockSize)
qed

section \<open>The claims\<close>

subsection \<open>Delivery of the source's bytes\<close>

text \<open>
  C1: the bytes returned by repeated calls to \<^verbatim>\<open>Read\<close> are all the bytes the
  source produced, in order, none lost and none twice.

  This holds for the bytes of the reads before the reader's first error
  (\<open>forwarded_bytes_kept\<close>, \<open>forwarded_bytes_delivered\<close>). An \<^verbatim>\<open>io.Reader\<close>
  may return bytes together with an error, and \<^verbatim>\<open>readInput\<close> leaves its loop
  on the error before it sends them. Here the reader answers \<^verbatim>\<open>("ab", nil)\<close>
  and then \<^verbatim>\<open>("cd", io.EOF)\<close>: three calls return \<^verbatim>\<open>"ab"\<close>, nothing, and
  \<^verbatim>\<open>io.EOF\<close>, and \<^verbatim>\<open>"cd"\<close> is never returned.
\<close>

theorem bytes_read_with_an_error_are_lost:
  "source_bytes 4 ex_src_cd_with_eof = [97, 98, 99, 100]
   \<and> map_option fst (Reads (NewNBReader ex_src_cd_with_eof 4 []) [ex_ask4, ex_ask4, ex_ask4])
       = Some [([97, 98], None), ([], None), ([], Some EOF)]"
  by (simp add: source_bytes_def NewNBReader_def Read_def Let_def Buffer_Read_def loop_body_def readWithTimeout_def
      remaining_of_def nextTimeout_of_def int64_def Sub_def minDuration_def maxDuration_def)

subsection \<open>When Read reports the end of the stream\<close>

text \<open>
  C2: \<^verbatim>\<open>Read\<close> returns \<^verbatim>\<open>io.EOF\<close> only when the buffer is empty and the source
  has signalled its end; in every other case it returns a count, possibly
  zero and possibly short of the length asked for, with a nil error.

  For a reader built by \<^verbatim>\<open>NewNBReader\<close> and used by any sequence of calls:
  the next call returns as soon as the buffer suffices, the end of the stream
  is known, or the clock of one of its iterations reaches the overall timeout;
  whenever it returns, the error is nil or \<^verbatim>\<open>io.EOF\<close> and at most \<open>L\<close> bytes
  are returned; \<^verbatim>\<open>io.EOF\<close> means that the buffer was empty, the flag was set,
  the channel is closed and the underlying reader has returned an error.
\<close>

theorem Read_EOF_only_when_exhausted_and_empty:
  assumes "Reads (NewNBReader src bs options) cs = Some (ress, r)"
  shows "((L \<le> length (buffer r) \<or> isEOF r
            \<or> (\<exists>it\<in>set its. forceTimeout r \<le> Sub (now_force it) start))
          \<longrightarrow> (\<exists>x. Read r L start its = Some x))
     \<and> (\<forall>data err r' its'. Read r L start its = Some ((data, err), r', its') \<longrightarrow>
          (err = None \<or> err = Some EOF) \<and> length data \<le> L
          \<and> (err = Some EOF \<longrightarrow>
               buffer r = [] \<and> isEOF r \<and> closed (dataChan r)
               \<and> (\<exists>rd\<in>set src. snd (rd bs) \<noteq> None))
          \<and> (buffer r \<noteq> [] \<or> \<not> isEOF r \<longrightarrow> err = None))"
proof (intro conjI impI allI)
  assume "L \<le> length (buffer r) \<or> isEOF r
            \<or> (\<exists>it\<in>set its. forceTimeout r \<le> Sub (now_force it) start)"
  then show "\<exists>x. Read r L start its = Some x" by (rule Read_returns)
next
  fix data err r' its'
  assume run: "Read r L start its = Some ((data, err), r', its')"
  from Read_result [OF run] show "err = None \<or> err = Some EOF" by (auto split: if_splits)
  from Read_result [OF run] show "length data \<le> L" by auto
  { assume "err = Some EOF"
    with Read_result [OF run] have e: "buffer r = []" "isEOF r"
      by (auto split: if_splits)
    then show "buffer r = []" "isEOF r" by simp_all
    from reachable_closed [OF assms e(2)]
    show "closed (dataChan r)" "\<exists>rd\<in>set src. snd (rd bs) \<noteq> None" by simp_all }
  { assume "buffer r \<noteq> [] \<or> \<not> isEOF r"
    with Read_result [OF run] show "err = None" by auto }
qed

theorem Read_EOF_only_when_exhausted_and_empty_witness:
  "\<exists>ress r. Reads (NewNBReader ex_src_ab_eof 4 []) [ex_ask4, ex_ask4] = Some (ress, r)
     \<and> Read r 4 0 [] = Some (([], Some EOF), r, [])
     \<and> buffer r = [] \<and> isEOF r \<and> closed (dataChan r)"
proof -
  let ?r = ex_ended
  have run: "Reads (NewNBReader ex_src_ab_eof 4 []) [ex_ask4, ex_ask4]
      = Some ([([97, 98], None), ([], None)], ?r)"
    by (simp add: NewNBReader_def Read_def Let_def Buffer_Read_def loop_body_def readWithTimeout_def
      remaining_of_def nextTimeout_of_def int64_def Sub_def minDuration_def maxDuration_def)
  have rd: "Read ?r 4 0 [] = Some (([], Some EOF), ?r, [])"
    by (simp add: Read_def Let_def Buffer_Read_def)
  from Read_EOF_only_when_exhausted_and_empty [OF run, where L = 4 and its = "[]" and start = 0] rd
  have "buffer ?r = [] \<and> isEOF ?r \<and> closed (dataChan ?r)" by blast
  with run rd show ?thesis by blast
qed

subsection \<open>The waiting loop\<close>

text \<open>
  C3: the waiting loop, entered only when the buffer holds fewer than \<open>L\<close>
  bytes and the end of the stream has not been seen, stops exactly when the
  buffer has reached \<open>L\<close> bytes, or a wait timed out and that iteration took at
  least the chunk timeout, or the channel was found closed (which sets the
  flag), or the time since the start of the call has reached the overall
  timeout, also when a chunk has just arrived.

  One iteration, from the loop's test on: the loop ends without waiting when
  the buffer suffices; it ends after the wait, with the flag set, when the wait
  found the channel closed; it ends after the wait when the wait timed out and
  the iteration took at least the chunk timeout, or when the overall timeout
  has passed; otherwise it goes on from the reader the wait left. Without an
  iteration left it ends only when the buffer suffices. When the buffer
  suffices or the flag is set at the call, \<^verbatim>\<open>Read\<close> uses no iteration.
\<close>

theorem waiting_loop_stops_exactly:
  "read_loop r L start (it # its) =
     (if L \<le> length (buffer r) then Some (r, it # its)
      else if wait_err r start it = Some EOF
        then Some ((after_wait r start it)\<lparr>isEOF := True\<rparr>, its)
      else if (wait_err r start it = Some errTimeout
                 \<and> chunkTimeout r \<le> Sub (now_duration it) (now_lastStart it))
              \<or> forceTimeout r \<le> Sub (now_force it) start
        then Some (after_wait r start it, its)
      else read_loop (after_wait r start it) L start its)
   \<and> read_loop r L start [] = (if L \<le> length (buffer r) then Some (r, []) else None)
   \<and> (L \<le> length (buffer r) \<or> isEOF r \<longrightarrow>
        (\<exists>res r'. Read r L start its = Some (res, r', its)))"
proof (intro conjI impI)
  assume "L \<le> length (buffer r) \<or> isEOF r"
  then show "\<exists>res r'. Read r L start its = Some (res, r', its)"
    using Read_fast [of L r start its] Read_isEOF [of r L start its] by auto
qed (auto simp add: loop_body_unfold)

theorem waiting_loop_stops_exactly_witness:
  "(2::nat) \<le> length (buffer ex_buffered)
   \<and> (\<exists>res r'. Read ex_buffered 2 0 [ex_tick] = Some (res, r', [ex_tick]))"
  using waiting_loop_stops_exactly [where L = 2 and r = ex_buffered and start = 0 and its = "[ex_tick]"]
  by simp

subsection \<open>The wait bound\<close>

text \<open>
  C4: in every iteration of the waiting loop the bound handed to the wait is
  the smaller of \<open>remaining\<close> (the overall timeout minus the time since the
  start of the call) and the chunk timeout, and it is \<open>remaining\<close> when the
  chunk timeout is zero.

  The time since the start of the call and its difference from the overall
  timeout are \<^verbatim>\<open>int64\<close> durations (outside that range \<^verbatim>\<open>Time.Sub\<close>
  saturates and the subtraction wraps around). Then \<open>remaining\<close> is the
  overall timeout minus the time from \<open>start\<close> to the instant read at line 97;
  the bound computed is the smaller of it and the chunk timeout, or
  \<open>remaining\<close> for a zero chunk timeout; an iteration of the loop waits with
  exactly this bound and goes on as lines 104 to 116 say; and the wait times
  out exactly when, for this bound, the timer comes before the channel or
  the producer has nothing to offer.
\<close>

theorem nextTimeout_is_min:
  assumes "minDuration \<le> now_remaining it - start"
    and "now_remaining it - start \<le> maxDuration"
    and "minDuration \<le> forceTimeout r - (now_remaining it - start)"
    and "forceTimeout r - (now_remaining it - start) \<le> maxDuration"
  shows "remaining_of r start it = forceTimeout r - (now_remaining it - start)
     \<and> nextTimeout_of r (remaining_of r start it) =
         (if chunkTimeout r = 0 then forceTimeout r - (now_remaining it - start)
          else min (forceTimeout r - (now_remaining it - start)) (chunkTimeout r))
     \<and> read_loop r L start (it # its) =
         (if L \<le> length (buffer r) then Some (r, it # its)
          else
            (let res = readWithTimeout r
                         (if chunkTimeout r = 0 then forceTimeout r - (now_remaining it - start)
                          else min (forceTimeout r - (now_remaining it - start)) (chunkTimeout r))
                         it;
                 err = snd (fst res);
                 r1 = snd res
             in if err = Some errTimeout
                    \<and> chunkTimeout r \<le> Sub (now_duration it) (now_lastStart it)
                  then Some (r1, its)
                else if err = Some EOF then Some (r1\<lparr>isEOF := True\<rparr>, its)
                else if forceTimeout r \<le> Sub (now_force it) start then Some (r1, its)
                else read_loop r1 L start its))
     \<and> (wait_err r start it = Some errTimeout) =
         (\<not> recv_first it
              (if chunkTimeout r = 0 then forceTimeout r - (now_remaining it - start)
               else min (forceTimeout r - (now_remaining it - start)) (chunkTimeout r))
          \<or> dataChan r = [])"
proof -
  let ?rem = "forceTimeout r - (now_remaining it - start)"
  let ?bound = "if chunkTimeout r = 0 then ?rem else min ?rem (chunkTimeout r)"
  have rem: "remaining_of r start it = ?rem"
    by (simp add: remaining_of_def Sub_id [OF assms(1,2)] int64_id [OF assms(3,4)])
  have bound2: "nextTimeout_of r ?rem = ?bound"
    by (simp add: nextTimeout_of_def min_def)
  have bound: "nextTimeout_of r (remaining_of r start it) = ?bound"
    unfolding rem by (rule bound2)
  have body: "loop_body r start it =
      (let res = readWithTimeout r ?bound it; err = snd (fst res); r1 = snd res
       in if err = Some errTimeout \<and> chunkTimeout r \<le> Sub (now_duration it) (now_lastStart it)
            then Break r1
          else if err = Some EOF then Break (r1\<lparr>isEOF := True\<rparr>)
          else if forceTimeout r \<le> Sub (now_force it) start then Break r1
          else Continue r1)"
    unfolding loop_body_def rem bound2 Let_def
    by (simp only: readWithTimeout_config)
  have loop: "read_loop r L start (it # its) =
         (if L \<le> length (buffer r) then Some (r, it # its)
          else
            (let res = readWithTimeout r ?bound it; err = snd (fst res); r1 = snd res
             in if err = Some errTimeout
                    \<and> chunkTimeout r \<le> Sub (now_duration it) (now_lastStart it)
                  then Some (r1, its)
                else if err = Some EOF then Some (r1\<lparr>isEOF := True\<rparr>, its)
                else if forceTimeout r \<le> Sub (now_force it) start then Some (r1, its)
                else read_loop r1 L start its))"
    by (simp add: body Let_def)
  have out: "(wait_err r start it = Some errTimeout) = (\<not> recv_first it ?bound \<or> dataChan r = [])"
    unfolding wait_err_def rem bound2 by (rule readWithTimeout_timed_out)
  from rem bound loop out show ?thesis by blast
qed

theorem nextTimeout_is_min_witness:
  "minDuration \<le> now_remaining ex_expiry - 0
   \<and> now_remaining ex_expiry - 0 \<le> maxDuration
   \<and> minDuration \<le> forceTimeout ex_stalling - (now_remaining ex_expiry - 0)
   \<and> forceTimeout ex_stalling - (now_remaining ex_expiry - 0) \<le> maxDuration
   \<and> remaining_of ex_stalling 0 ex_expiry = 95
   \<and> nextTimeout_of ex_stalling (remaining_of ex_stalling 0 ex_expiry) = 10
   \<and> remaining_of ex_pending 2 ex_late = - 1
   \<and> nextTimeout_of ex_pending (remaining_of ex_pending 2 ex_late) = - 1"
proof -
  have h: "minDuration \<le> now_remaining ex_expiry - 0"
    "now_remaining ex_expiry - 0 \<le> maxDuration"
    "minDuration \<le> forceTimeout ex_stalling - (now_remaining ex_expiry - 0)"
    "forceTimeout ex_stalling - (now_remaining ex_expiry - 0) \<le> maxDuration"
    by (simp_all add: NewNBReader_def minDuration_def maxDuration_def)
  have k: "minDuration \<le> now_remaining ex_late - 2"
    "now_remaining ex_late - 2 \<le> maxDuration"
    "minDuration \<le> forceTimeout ex_pending - (now_remaining ex_late - 2)"
    "forceTimeout ex_pending - (now_remaining ex_late - 2) \<le> maxDuration"
    by (simp_all add: minDuration_def maxDuration_def)
  note a = nextTimeout_is_min [where r = ex_stalling and start = 0 and it = ex_expiry
      and L = 4 and its = "[]", OF h]
  note b = nextTimeout_is_min [where r = ex_pending and start = 2 and it = ex_late
      and L = 4 and its = "[]", OF k]
  have a1: "remaining_of ex_stalling 0 ex_expiry = 95"
    using a [THEN conjunct1] by (simp add: NewNBReader_def)
  have a2: "nextTimeout_of ex_stalling (remaining_of ex_stalling 0 ex_expiry) = 10"
    using a [THEN conjunct2, THEN conjunct1] by (simp add: NewNBReader_def)
  have b1: "remaining_of ex_pending 2 ex_late = - 1"
    using b [THEN conjunct1] by simp
  have b2: "nextTimeout_of ex_pending (remaining_of ex_pending 2 ex_late) = - 1"
    using b [THEN conjunct2, THEN conjunct1] by simp
  from h a1 a2 b1 b2 show ?thesis by blast
qed

subsection \<open>The fast path\<close>

text \<open>
  C5: when the buffer holds at least \<open>L\<close> bytes at the call, \<^verbatim>\<open>Read\<close> copies
  exactly \<open>L\<close> bytes out and returns \<open>L\<close> with a nil error, with no wait: no
  iteration is used and neither the timeouts nor the clock enter the result.
  A call with \<open>L = 0\<close> returns no bytes and no error and leaves the reader as
  it is, whatever its state, past the end of the stream too.
\<close>

theorem Read_fast_path:
  "(L \<le> length (buffer r) \<longrightarrow>
      Read r L start its = Some ((take L (buffer r), None), r\<lparr>buffer := drop L (buffer r)\<rparr>, its))
   \<and> Read r 0 start its = Some (([], None), r, its)"
  by (auto simp add: Read_def Buffer_Read_def Let_def)

theorem Read_fast_path_witness:
  "(2::nat) \<le> length (buffer ex_buffered)
   \<and> Read ex_buffered 2 0 [] = Some (([1, 2], None), ex_buffered\<lparr>buffer := [3]\<rparr>, [])"
  using Read_fast_path [where L = 2 and r = ex_buffered and start = 0 and its = "[]"]
  by simp

subsection \<open>The producer\<close>

text \<open>
  C6: the producer asks the source for up to \<open>blockSize\<close> bytes again and
  again; each successful read is sent on the channel as it is, in order; on
  the first error, whatever it is, the loop ends and the channel is closed,
  for good.

  The operations on the channel are the sends of the reads before the first
  error, then the close when there is an error and nothing when there is none
  (the reader blocks); the error's value is not looked at. \<^verbatim>\<open>NewNBReader\<close>
  starts this producer with the block size it is given.
\<close>

theorem readInput_forwards_until_error:
  "readInput bs src =
     map (\<lambda>rd. Send (fst (rd bs))) (takeWhile (\<lambda>rd. snd (rd bs) = None) src)
     @ (if \<exists>rd\<in>set src. snd (rd bs) \<noteq> None then [Close] else [])
   \<and> dataChan (NewNBReader src bs options) = readInput bs src"
  using readInput_sends [of bs src] by (simp add: NewNBReader_fields)

subsection \<open>No timeouts\<close>

text \<open>
  C7: with both timeouts zero, \<^verbatim>\<open>Read\<close> returns at once with what is buffered:
  \<open>remaining\<close> is at most zero, so the first wait gets a bound that is at most
  zero, and the loop ends after one iteration at most.

  The clock is monotonic: the instants read in the iteration are not before
  the start of the call. Then the bound of the wait is \<open>remaining\<close> and is at
  most zero, the call returns having used no iteration or one, and it returns
  the first \<open>L\<close> bytes of the buffer, extended by the one chunk that the wait
  may have received.
\<close>

theorem zero_timeouts_return_at_once:
  assumes "forceTimeout r = 0" and "chunkTimeout r = 0"
    and "start \<le> now_remaining it" and "start \<le> now_force it"
  shows "remaining_of r start it \<le> 0
     \<and> nextTimeout_of r (remaining_of r start it) = remaining_of r start it
     \<and> (\<exists>res r'. (Read r L start (it # its) = Some (res, r', it # its)
                    \<or> Read r L start (it # its) = Some (res, r', its))
           \<and> (fst res = take L (buffer r)
                \<or> (\<exists>data rest. dataChan r = Send data # rest
                      \<and> fst res = take L (buffer r @ data))))"
proof (intro conjI)
  from Sub_nonneg [OF assms(3)]
  have "int64 (0 - Sub (now_remaining it) start) = 0 - Sub (now_remaining it) start"
    by (intro int64_id) (simp_all add: minDuration_def maxDuration_def)
  with Sub_nonneg [OF assms(3)] show "remaining_of r start it \<le> 0"
    by (simp add: remaining_of_def assms(1))
  show "nextTimeout_of r (remaining_of r start it) = remaining_of r start it"
    by (simp add: nextTimeout_of_def assms(2))
  show "\<exists>res r'. (Read r L start (it # its) = Some (res, r', it # its)
                    \<or> Read r L start (it # its) = Some (res, r', its))
           \<and> (fst res = take L (buffer r)
                \<or> (\<exists>data rest. dataChan r = Send data # rest
                      \<and> fst res = take L (buffer r @ data)))"
  proof (cases "L \<le> length (buffer r) \<or> isEOF r")
    case True
    then show ?thesis
      using Read_fast [of L r start "it # its"] Read_isEOF [of r L start "it # its"] by auto
  next
    case False
    have f: "forceTimeout r \<le> Sub (now_force it) start"
      using Sub_nonneg [OF assms(4)] by (simp add: assms(1))
    let ?a = "after_wait r start it"
    have "read_loop r L start (it # its) = Some (?a, its)
          \<or> read_loop r L start (it # its) = Some (?a\<lparr>isEOF := True\<rparr>, its)"
      using False f by (simp add: loop_body_unfold)
    then obtain r1 where run: "read_loop r L start (it # its) = Some (r1, its)"
      and b: "buffer r1 = buffer ?a" by auto
    from False run have "Read r L start (it # its) =
        Some ((take L (buffer r1), None), r1\<lparr>buffer := drop L (buffer r1)\<rparr>, its)"
      by (simp add: Read_slow)
    with after_wait_buffer [of r start it] b show ?thesis by auto
  qed
qed

theorem zero_timeouts_return_at_once_witness:
  "forceTimeout ex_pending = 0 \<and> chunkTimeout ex_pending = 0
   \<and> (2::int) \<le> now_remaining ex_late \<and> (2::int) \<le> now_force ex_late
   \<and> remaining_of ex_pending 2 ex_late \<le> 0
   \<and> Read ex_pending 4 2 [ex_late] =
       Some (([1, 2], None), ex_pending\<lparr>dataChan := [], buffer := []\<rparr>, [])"
proof -
  have "remaining_of ex_pending 2 ex_late \<le> 0"
    using zero_timeouts_return_at_once [where r = ex_pending and start = 2 and it = ex_late]
    by simp
  then show ?thesis
    by (simp add: NewNBReader_def Read_def Let_def Buffer_Read_def loop_body_def readWithTimeout_def
      remaining_of_def nextTimeout_of_def int64_def Sub_def minDuration_def maxDuration_def)
qed

subsection \<open>The block size in Read\<close>

text \<open>
  C8: the block size acts, with the length asked for, as the threshold of
  "enough data buffered": when the buffer holds at least \<open>blockSize\<close> bytes,
  \<^verbatim>\<open>Read\<close> returns regardless of the timeouts.

  \<^verbatim>\<open>Read\<close> compares the buffer with the length of the caller's slice only
  (\<open>Read_blockSize\<close>). With block size 2, timeouts of 100 and 10 and a slice
  of 4 bytes: the first wait receives 2 bytes, the buffer holds \<open>blockSize\<close>
  bytes, and the loop waits again; the call returns the 2 bytes only when the
  second wait has timed out after the chunk timeout.
\<close>

theorem Read_waits_with_blockSize_bytes_buffered:
  "blockSize ex_stalling = 2
   \<and> buffer (after_wait ex_stalling 0 ex_arrival) = [1, 2]
   \<and> Read ex_stalling 4 0 [ex_arrival] = None
   \<and> map_option fst (Read ex_stalling 4 0 [ex_arrival, ex_expiry]) = Some ([1, 2], None)"
  by (simp add: after_wait_def NewNBReader_def Read_def Let_def Buffer_Read_def loop_body_def readWithTimeout_def
      remaining_of_def nextTimeout_of_def int64_def Sub_def minDuration_def maxDuration_def)

subsection \<open>The end-of-stream flag\<close>

text \<open>
  C9: the flag is set at most once, by \<^verbatim>\<open>Read\<close> when it finds the channel
  closed, and never reset; once it is set, every later call skips the waiting
  loop and only drains the buffer.

  With the flag set, a call uses no iteration, returns the first \<open>L\<close> bytes of
  the buffer and keeps the flag and the channel; so does every sequence of
  calls, whose results are the buffer's bytes in order. A call that sets the
  flag leaves the channel closed. A new reader has the flag unset.
\<close>

theorem isEOF_set_once_never_reset:
  "(isEOF r \<longrightarrow>
      Read r L start its =
        Some ((take L (buffer r), if buffer r = [] \<and> 0 < L then Some EOF else None),
              r\<lparr>buffer := drop L (buffer r)\<rparr>, its))
   \<and> (isEOF r \<longrightarrow>
        (\<exists>ress r2. Reads r cs = Some (ress, r2) \<and> isEOF r2 \<and> dataChan r2 = dataChan r
           \<and> concat (map fst ress) @ buffer r2 = buffer r))
   \<and> (Read r L start its = Some ((data, err), r', its') \<and> \<not> isEOF r \<and> isEOF r'
        \<longrightarrow> closed (dataChan r'))
   \<and> isEOF (NewNBReader src bs options) = False"
proof (intro conjI impI)
  assume "isEOF r"
  then show "Read r L start its =
        Some ((take L (buffer r), if buffer r = [] \<and> 0 < L then Some EOF else None),
              r\<lparr>buffer := drop L (buffer r)\<rparr>, its)"
    by (rule Read_isEOF)
next
  assume "isEOF r"
  from Reads_isEOF [OF this, of cs]
  show "\<exists>ress r2. Reads r cs = Some (ress, r2) \<and> isEOF r2 \<and> dataChan r2 = dataChan r
           \<and> concat (map fst ress) @ buffer r2 = buffer r"
    by blast
next
  assume "Read r L start its = Some ((data, err), r', its') \<and> \<not> isEOF r \<and> isEOF r'"
  then show "closed (dataChan r')" using Read_closed by blast
next
  show "isEOF (NewNBReader src bs options) = False" by (simp add: NewNBReader_fields)
qed

theorem isEOF_set_once_never_reset_witness:
  "Reads (NewNBReader ex_src_ab_eof 4 []) [ex_ask4] = Some ([([97, 98], None)], ex_open)
   \<and> \<not> isEOF ex_open
   \<and> Read ex_open 4 0 [ex_tick] = Some (([], None), ex_ended, [])
   \<and> isEOF ex_ended \<and> closed (dataChan ex_ended)
   \<and> Read ex_ended 4 0 [ex_tick] = Some (([], Some EOF), ex_ended, [ex_tick])
   \<and> (\<exists>ress r2. Reads ex_ended [ex_ask4, ex_ask4] = Some (ress, r2) \<and> isEOF r2
         \<and> dataChan r2 = dataChan ex_ended \<and> concat (map fst ress) @ buffer r2 = buffer ex_ended)"
proof -
  have reach: "Reads (NewNBReader ex_src_ab_eof 4 []) [ex_ask4] = Some ([([97, 98], None)], ex_open)"
    by (simp add: NewNBReader_def Read_def Let_def Buffer_Read_def loop_body_def
        readWithTimeout_def remaining_of_def nextTimeout_of_def int64_def Sub_def
        minDuration_def maxDuration_def)
  have turn: "Read ex_open 4 0 [ex_tick] = Some (([], None), ex_ended, [])"
    by (simp add: Read_def Let_def Buffer_Read_def loop_body_def
        readWithTimeout_def remaining_of_def nextTimeout_of_def int64_def Sub_def
        minDuration_def maxDuration_def)
  have off: "\<not> isEOF ex_open" and on: "isEOF ex_ended" by simp_all
  note t = isEOF_set_once_never_reset [where r = ex_open and L = 4 and start = 0
      and its = "[ex_tick]" and data = "[]" and err = None and r' = ex_ended and its' = "[]"
      and cs = "[]" and src = "[]" and bs = 0 and options = "[]"]
  from t [THEN conjunct2, THEN conjunct2, THEN conjunct1] turn off on
  have cl: "closed (dataChan ex_ended)" by blast
  note u = isEOF_set_once_never_reset [where r = ex_ended and L = 4 and start = 0
      and its = "[ex_tick]" and data = "[]" and err = None and r' = ex_ended and its' = "[]"
      and cs = "[ex_ask4, ex_ask4]" and src = "[]" and bs = 0 and options = "[]"]
  from u [THEN conjunct1] on
  have skip: "Read ex_ended 4 0 [ex_tick] = Some (([], Some EOF), ex_ended, [ex_tick])"
    by simp
  from u [THEN conjunct2, THEN conjunct1] on
  have later: "\<exists>ress r2. Reads ex_ended [ex_ask4, ex_ask4] = Some (ress, r2) \<and> isEOF r2
         \<and> dataChan r2 = dataChan ex_ended \<and> concat (map fst ress) @ buffer r2 = buffer ex_ended"
    by blast
  from reach off turn on cl skip later show ?thesis by blast
qed

subsection \<open>Errors returned by Read\<close>

text \<open>
  C10: when \<^verbatim>\<open>Read\<close> returns an error, the error is \<^verbatim>\<open>io.EOF\<close>, no byte is
  returned and the buffer was empty; bytes never come with an error. The call
  that first sees the end of the stream returns a nil error, and \<^verbatim>\<open>io.EOF\<close>
  comes from a later call, through the path taken when the flag is set.
\<close>

theorem Read_error_is_EOF_without_bytes:
  assumes "Read r L start its = Some ((data, err), r', its')"
  shows "(err \<noteq> None \<longrightarrow>
            err = Some EOF \<and> data = [] \<and> buffer r = [] \<and> buffer r' = [] \<and> isEOF r
            \<and> its' = its)
     \<and> (data \<noteq> [] \<longrightarrow> err = None)
     \<and> (\<not> isEOF r \<longrightarrow> err = None)
     \<and> (isEOF r' \<and> buffer r' = [] \<longrightarrow>
          (\<forall>L' start' its''. 0 < L' \<longrightarrow>
             Read r' L' start' its'' = Some (([], Some EOF), r', its'')))"
proof -
  note res = Read_result [OF assms]
  have a: "err \<noteq> None \<longrightarrow>
            err = Some EOF \<and> data = [] \<and> buffer r = [] \<and> buffer r' = [] \<and> isEOF r
            \<and> its' = its"
    using res by (auto split: if_splits)
  have b: "data \<noteq> [] \<longrightarrow> err = None"
    using res by (auto split: if_splits)
  have c: "\<not> isEOF r \<longrightarrow> err = None"
    using res by (auto split: if_splits)
  have d: "isEOF r' \<and> buffer r' = [] \<longrightarrow>
          (\<forall>L' start' its''. 0 < L' \<longrightarrow>
             Read r' L' start' its'' = Some (([], Some EOF), r', its''))"
  proof (intro impI allI)
    fix L' :: nat and start' its''
    assume "isEOF r' \<and> buffer r' = []" and "0 < L'"
    then show "Read r' L' start' its'' = Some (([], Some EOF), r', its'')"
      using Read_isEOF [of r' L' start' its''] by simp
  qed
  from a b c d show ?thesis by blast
qed

theorem Read_error_is_EOF_without_bytes_witness:
  "Read ex_drained 4 0 [] = Some (([], Some EOF), ex_drained, [])
   \<and> buffer ex_drained = [] \<and> isEOF ex_drained"
proof -
  have rd: "Read ex_drained 4 0 [] = Some (([], Some EOF), ex_drained, [])"
    by (simp add: Read_def Let_def Buffer_Read_def)
  from Read_error_is_EOF_without_bytes [OF rd] rd show ?thesis by simp
qed

end
